theory Spec2Isabelle
  imports Main "HOL-Library.Word"
begin

section \<open>Save-time text normalisation (editor.cpp, lines 34-39 and 517-534)\<close>

text \<open>
  Text is a \<^typ>\<open>string\<close>: a list of 8-bit characters, as \<^verbatim>\<open>std::string\<close> is a
  sequence of bytes. The line feed is written \<open>NL\<close>.
\<close>

abbreviation NL :: char where
  "NL \<equiv> CHR 0x0A"

text \<open>
  \<^verbatim>\<open>is_space_char(c)\<close> is \<^verbatim>\<open>std::isspace(c) != 0\<close>: space, horizontal tab, line feed,
  vertical tab, form feed and carriage return (the "C" locale and every UTF-8 locale).
\<close>

definition is_space_char :: "char \<Rightarrow> bool" where
  "is_space_char c =
     (c = CHR 0x20 \<or> c = CHR 0x09 \<or> c = CHR 0x0A \<or> c = CHR 0x0B \<or> c = CHR 0x0C \<or> c = CHR 0x0D)"

text \<open>
  \<^verbatim>\<open>while (!s.empty() && is_space_char(s.back())) s.pop_back(); return s;\<close>
\<close>

function rtrim_copy :: "string \<Rightarrow> string" where
  "rtrim_copy s = (if s \<noteq> [] \<and> is_space_char (last s) then rtrim_copy (butlast s) else s)"
  by pat_completeness auto
termination
  by (relation "measure length") auto

text \<open>
  \<^verbatim>\<open>std::getline(in, line)\<close> on the unread rest of the stream: it fails when nothing is
  left to read; otherwise it extracts the characters up to the next line feed or the end
  of the input, and consumes the line feed without storing it. The result is the line and
  the new unread rest.
\<close>

definition getline :: "string \<Rightarrow> (string \<times> string) option" where
  "getline inp =
     (if inp = [] then None
      else Some (takeWhile (\<lambda>c. c \<noteq> NL) inp, drop 1 (dropWhile (\<lambda>c. c \<noteq> NL) inp)))"

lemma getline_shorter: "getline inp = Some (line, rest) \<Longrightarrow> length rest < length inp"
proof -
  assume g: "getline inp = Some (line, rest)"
  then have ne: "inp \<noteq> []" and r: "rest = drop 1 (dropWhile (\<lambda>c. c \<noteq> NL) inp)"
    by (auto simp: getline_def split: if_splits)
  show ?thesis
  proof (cases "dropWhile (\<lambda>c. c \<noteq> NL) inp")
    case Nil
    with r ne show ?thesis by simp
  next
    case (Cons a as)
    have "length (dropWhile (\<lambda>c. c \<noteq> NL) inp) \<le> length inp"
      by (rule length_dropWhile_le)
    with Cons r show ?thesis by simp
  qed
qed

text \<open>
  The loop of the \<^verbatim>\<open>trim_ws_on_save_\<close> block: \<open>inp\<close> is the unread rest of the
  stringstream, \<open>out\<close> and \<open>first\<close> are the local variables of the same names.
\<close>

function trim_loop :: "string \<Rightarrow> string \<Rightarrow> bool \<Rightarrow> string" where
  "trim_loop inp out first =
     (case getline inp of
        None \<Rightarrow> out
      | Some (line, rest) \<Rightarrow>
          trim_loop rest ((if \<not> first then out @ [NL] else out) @ rtrim_copy line) False)"
  by pat_completeness auto
termination
  by (relation "measure (\<lambda>(inp, out, first). length inp)") (auto dest: getline_shorter)

text \<open>
  \<^verbatim>\<open>Editor::apply_save_fixes\<close>; the two preference fields it reads are its first two
  arguments, and the text it rewrites in place is returned.
\<close>

definition apply_save_fixes :: "bool \<Rightarrow> bool \<Rightarrow> string \<Rightarrow> string" where
  "apply_save_fixes trim_ws_on_save ensure_newline_eof text0 =
     (let text1 = (if trim_ws_on_save then trim_loop text0 [] True else text0)
      in if ensure_newline_eof
         then (if text1 = [] \<or> last text1 \<noteq> NL then text1 @ [NL] else text1)
         else text1)"

text \<open>The two transforms of the specification are the two blocks taken alone.\<close>

definition trimTrailingWhitespace :: "string \<Rightarrow> string" where
  "trimTrailingWhitespace t = apply_save_fixes True False t"

definition ensureTrailingNewline :: "string \<Rightarrow> string" where
  "ensureTrailingNewline t = apply_save_fixes False True t"

section \<open>Search and replace (editor.cpp, lines 664-751)\<close>

text \<open>
  The buffer is the text of the \<^verbatim>\<open>GtkTextBuffer\<close>; a \<^verbatim>\<open>GtkTextIter\<close> is a
  character offset into it, between \<open>0\<close> and the length of the text. A character is
  one \<^typ>\<open>char\<close>, so the model covers text whose characters are single bytes, where
  \<^verbatim>\<open>repl.size()\<close> is also the number of characters of the replacement.
\<close>

text \<open>
  \<^verbatim>\<open>to_lower\<close> (lines 94-97) lowers every byte with \<^verbatim>\<open>std::tolower\<close>: the letters
  \<open>A\<close> to \<open>Z\<close> move to \<open>a\<close> to \<open>z\<close>, every other byte stays.
\<close>

definition tolower :: "char \<Rightarrow> char" where
  "tolower c =
     (if (65::nat) \<le> of_char c \<and> of_char c \<le> (90::nat) then char_of (of_char c + (32::nat)) else c)"

definition to_lower :: "string \<Rightarrow> string" where
  "to_lower s = map tolower s"

text \<open>
  Modelled from the spec: the match primitive of the search context
  (\<^verbatim>\<open>gtk_source_search_context_forward\<close> and
  \<^verbatim>\<open>gtk_source_search_context_backward\<close>) belongs to the text widget library and is not
  part of the sources. The specification gives its
  contract: the pattern is a literal substring, compared after the ASCII lowering of
  \<^verbatim>\<open>to_lower\<close> because \<^verbatim>\<open>ensure_search_context\<close> switches case sensitivity off; an
  empty pattern matches nothing; the primitive itself does not wrap
  (\<^verbatim>\<open>set_wrap_around(..., FALSE)\<close>). The forward search returns the first occurrence
  that starts at or after the iterator, the backward search the occurrence whose start is
  nearest before the iterator. A match is the pair of its start and end offsets.
\<close>

definition match_at :: "string \<Rightarrow> string \<Rightarrow> nat \<Rightarrow> bool" where
  "match_at pat text i =
     (pat \<noteq> [] \<and> i + length pat \<le> length text \<and>
      to_lower (take (length pat) (drop i text)) = to_lower pat)"

definition gtk_source_search_context_forward ::
  "string \<Rightarrow> string \<Rightarrow> nat \<Rightarrow> (nat \<times> nat) option" where
  "gtk_source_search_context_forward pat text iter =
     map_option (\<lambda>i. (i, i + length pat)) (List.find (match_at pat text) [iter..<length text])"

definition gtk_source_search_context_backward ::
  "string \<Rightarrow> string \<Rightarrow> nat \<Rightarrow> (nat \<times> nat) option" where
  "gtk_source_search_context_backward pat text iter =
     map_option (\<lambda>i. (i, i + length pat))
       (List.find (match_at pat text) (rev [0..<iter]))"

text \<open>
  \<^verbatim>\<open>Editor::search_find_next\<close>: \<open>pat\<close> is the search text of the settings, \<open>text\<close> the
  buffer and \<open>cursor\<close> the offset of the insert mark. The result is the range handed to
  \<^verbatim>\<open>gtk_text_buffer_select_range\<close>, or \<open>None\<close> when the function returns at
  \<^verbatim>\<open>if (!found)\<close> without selecting anything.
\<close>

definition search_find_next :: "string \<Rightarrow> bool \<Rightarrow> string \<Rightarrow> nat \<Rightarrow> (nat \<times> nat) option" where
  "search_find_next pat backwards text cursor =
     (if backwards then
        (case gtk_source_search_context_backward pat text cursor of
           Some m \<Rightarrow> Some m
         | None \<Rightarrow> gtk_source_search_context_backward pat text (length text))
      else
        (case gtk_source_search_context_forward pat text cursor of
           Some m \<Rightarrow> Some m
         | None \<Rightarrow> gtk_source_search_context_forward pat text 0))"

text \<open>
  The three buffer calls of the replace loop. They belong to the toolkit and receive their
  iterators by address; the model gives each call the effect the toolkit's reference
  documents. \<^verbatim>\<open>gtk_text_buffer_delete(buffer, &start, &end)\<close> removes the range, and
  both iterators are re-initialised to point to the location where the text was deleted.
  \<^verbatim>\<open>gtk_text_buffer_insert(buffer, &iter, text, -1)\<close> inserts at the iterator, and the
  iterator is re-initialised to point to the end of the inserted text.
  \<^verbatim>\<open>gtk_text_iter_forward_chars(&iter, n)\<close> moves the iterator \<open>n\<close> characters forward and
  stops at the end of the buffer.
\<close>

definition gtk_text_buffer_delete :: "string \<Rightarrow> nat \<Rightarrow> nat \<Rightarrow> string \<times> nat \<times> nat" where
  "gtk_text_buffer_delete text start_it end_it =
     (take start_it text @ drop end_it text, start_it, start_it)"

definition gtk_text_buffer_insert :: "string \<Rightarrow> nat \<Rightarrow> string \<Rightarrow> string \<times> nat" where
  "gtk_text_buffer_insert text iter ins =
     (take iter text @ ins @ drop iter text, iter + length ins)"

definition gtk_text_iter_forward_chars :: "string \<Rightarrow> nat \<Rightarrow> nat \<Rightarrow> nat" where
  "gtk_text_iter_forward_chars text iter n = min (iter + n) (length text)"

text \<open>
  The body of the \<^verbatim>\<open>while\<close> loop of \<^verbatim>\<open>Editor::search_replace_all\<close> for one match
  \<open>(mstart, mend)\<close>: delete, insert, \<^verbatim>\<open>iter = mstart\<close>, then
  \<^verbatim>\<open>gtk_text_iter_forward_chars(&iter, (gint)repl.size())\<close>. It returns the new buffer
  and the new \<^verbatim>\<open>iter\<close>.
\<close>

definition replace_step :: "string \<Rightarrow> string \<Rightarrow> nat \<Rightarrow> nat \<Rightarrow> string \<times> nat" where
  "replace_step repl text mstart mend =
     (case gtk_text_buffer_delete text mstart mend of
        (text1, mstart1, mend1) \<Rightarrow>
          (case gtk_text_buffer_insert text1 mstart1 repl of
             (text2, mstart2) \<Rightarrow>
               (text2, gtk_text_iter_forward_chars text2 mstart2 (length repl))))"

lemma replace_step_measure:
  assumes "gtk_source_search_context_forward pat text iter = Some (mstart, mend)"
    and "(text', iter') = replace_step repl text mstart mend"
  shows "length text' - iter' < length text - iter"
proof -
  from assms(1) obtain i where f: "List.find (match_at pat text) [iter..<length text] = Some i"
    and m: "mstart = i" "mend = i + length pat"
    by (auto simp: gtk_source_search_context_forward_def)
  from f have "match_at pat text i" and "iter \<le> i"
    by (auto simp: find_Some_iff)
  then have b: "0 < length pat" "mstart + length pat \<le> length text" "iter \<le> mstart"
    using m by (auto simp: match_at_def)
  from assms(2) m b have t: "length text' = length text - length pat + length repl"
    by (auto simp: replace_step_def gtk_text_buffer_delete_def gtk_text_buffer_insert_def)
  from assms(2) m b have i: "iter' = min (mstart + length repl + length repl) (length text')"
    by (auto simp: replace_step_def gtk_text_buffer_delete_def gtk_text_buffer_insert_def
        gtk_text_iter_forward_chars_def)
  from t i b show ?thesis by arith
qed

text \<open>
  The loop itself: \<open>iter\<close> and \<open>count\<close> are the local variables of the same names.
  It stops at the first search that finds nothing.
\<close>

function replace_loop :: "string \<Rightarrow> string \<Rightarrow> string \<Rightarrow> nat \<Rightarrow> nat \<Rightarrow> string \<times> nat" where
  "replace_loop pat repl text iter count =
     (case gtk_source_search_context_forward pat text iter of
        None \<Rightarrow> (text, count)
      | Some (mstart, mend) \<Rightarrow>
          (case replace_step repl text mstart mend of
             (text', iter') \<Rightarrow> replace_loop pat repl text' iter' (count + 1)))"
  by pat_completeness auto
termination
  by (relation "measure (\<lambda>(pat, repl, text, iter, count). length text - iter)")
    (auto dest: replace_step_measure)

text \<open>
  \<^verbatim>\<open>Editor::search_replace_all\<close>: the scan starts at the start iterator with
  \<^verbatim>\<open>count = 0\<close>. The C++ function is \<^verbatim>\<open>void\<close> and ends with \<^verbatim>\<open>(void)count;\<close>: the
  counter is dropped, and all the function leaves behind is the buffer.
\<close>

definition search_replace_all :: "string \<Rightarrow> string \<Rightarrow> string \<Rightarrow> string" where
  "search_replace_all pat repl text = fst (replace_loop pat repl text 0 0)"

text \<open>
  The substitutions the loop performs, in order: one entry for every pass through the
  loop body, holding the range \<open>(mstart, mend)\<close> that the pass deletes and replaces, as
  offsets into the buffer at that moment.
\<close>

function replace_edits :: "string \<Rightarrow> string \<Rightarrow> string \<Rightarrow> nat \<Rightarrow> (nat \<times> nat) list" where
  "replace_edits pat repl text iter =
     (case gtk_source_search_context_forward pat text iter of
        None \<Rightarrow> []
      | Some (mstart, mend) \<Rightarrow>
          (case replace_step repl text mstart mend of
             (text', iter') \<Rightarrow> (mstart, mend) # replace_edits pat repl text' iter'))"
  by pat_completeness auto
termination
  by (relation "measure (\<lambda>(pat, repl, text, iter). length text - iter)")
    (auto split: prod.splits dest: replace_step_measure [OF _ sym])

text \<open>One substitution on its own: the range is exchanged for the replacement.\<close>

definition replace_range :: "string \<Rightarrow> string \<Rightarrow> nat \<times> nat \<Rightarrow> string" where
  "replace_range repl text r = take (fst r) text @ repl @ drop (snd r) text"

section \<open>The editor state and the file monitor (editor.cpp, lines 351-625 and 1233-1263)\<close>

text \<open>
  The fields of \<^verbatim>\<open>class Editor\<close> that the file operations and the monitor callback
  read or write. \<open>file_monitor\<close> is \<open>None\<close> for a null \<^verbatim>\<open>file_monitor_\<close> and
  otherwise holds the path the monitor was created for; the modification time is a
  \<^verbatim>\<open>guint64\<close>.
\<close>

record editor =
  buffer :: string
  current_file :: string
  modified :: bool
  file_monitor :: "string option"
  file_mtime_utc_us :: "64 word"
  suppress_monitor_once :: bool
  opened_via_cli :: bool
  trim_ws_on_save :: bool
  ensure_newline_eof :: bool

datatype GFileMonitorEvent =
    G_FILE_MONITOR_EVENT_CHANGED
  | G_FILE_MONITOR_EVENT_CHANGES_DONE_HINT
  | G_FILE_MONITOR_EVENT_DELETED
  | G_FILE_MONITOR_EVENT_CREATED
  | G_FILE_MONITOR_EVENT_ATTRIBUTE_CHANGED
  | G_FILE_MONITOR_EVENT_PRE_UNMOUNT
  | G_FILE_MONITOR_EVENT_UNMOUNTED
  | G_FILE_MONITOR_EVENT_MOVED
  | G_FILE_MONITOR_EVENT_RENAMED
  | G_FILE_MONITOR_EVENT_MOVED_IN
  | G_FILE_MONITOR_EVENT_MOVED_OUT

text \<open>
  What the world outside the editor answers while one callback or one file operation
  runs: the outcome of \<^verbatim>\<open>g_file_get_contents\<close>, the buttons pressed in the two dialogs
  (\<open>True\<close> is \<^verbatim>\<open>GTK_RESPONSE_ACCEPT\<close>), the file chosen in the save dialog, whether
  \<^verbatim>\<open>g_file_monitor_file\<close> reports an error, whether \<^verbatim>\<open>g_file_set_contents\<close> succeeds,
  and the value of \<^verbatim>\<open>get_file_mtime_us\<close> at each of its call sites (\<open>0\<close> when the file
  cannot be queried).
\<close>

datatype read_result = Contents string | NoEnt | OtherError

record world =
  mtime_now :: "64 word"
  mtime_installed :: "64 word"
  mtime_saved :: "64 word"
  reload_answer :: bool
  discard_answer :: bool
  read_file :: read_result
  monitor_error :: bool
  write_ok :: bool
  chosen_file :: "string option"

text \<open>
  What a run does that the state does not record: the dialogs it shows and the files it
  reads and writes, in order.
\<close>

datatype effect = PromptDiscard | PromptReload | ReadFile string | WriteFile string string

definition mark_modified :: "bool \<Rightarrow> editor \<Rightarrow> editor" where
  "mark_modified is_modified s = s\<lparr>modified := is_modified\<rparr>"

definition maybe_confirm_discard :: "world \<Rightarrow> editor \<Rightarrow> bool \<times> effect list" where
  "maybe_confirm_discard w s =
     (if \<not> modified s then (True, []) else (discard_answer w, [PromptDiscard]))"

definition confirm_reload_external :: "world \<Rightarrow> bool \<times> effect list" where
  "confirm_reload_external w = (reload_answer w, [PromptReload])"

definition remove_file_monitor :: "editor \<Rightarrow> editor" where
  "remove_file_monitor s = s\<lparr>file_monitor := None\<rparr>"

definition install_file_monitor :: "string \<Rightarrow> world \<Rightarrow> editor \<Rightarrow> editor" where
  "install_file_monitor path w s =
     (let s1 = remove_file_monitor s
      in if path = [] then s1
         else if monitor_error w then s1
         else s1\<lparr>file_monitor := Some path, file_mtime_utc_us := mtime_installed w\<rparr>)"

text \<open>
  \<^verbatim>\<open>Editor::open_file_from_path\<close>. The discard dialog is shown only when the call does
  not come from the command line and the buffer is modified. Setting the buffer text
  fires the buffer's \<^verbatim>\<open>changed\<close> signal, which marks the document modified until
  \<^verbatim>\<open>mark_modified(false)\<close> a few lines later; the model keeps the final value.
\<close>

definition open_file_from_path :: "string \<Rightarrow> world \<Rightarrow> editor \<Rightarrow> editor \<times> effect list" where
  "open_file_from_path path w s =
     (let asked = (\<not> opened_via_cli s \<and> modified s);
          prompts = (if asked then snd (maybe_confirm_discard w s) else [])
      in if asked \<and> \<not> fst (maybe_confirm_discard w s) then (s, prompts)
         else
           (case read_file w of
              Contents c \<Rightarrow>
                (mark_modified False
                   (install_file_monitor path w
                      (s\<lparr>suppress_monitor_once := True, buffer := c, current_file := path\<rparr>)),
                 prompts @ [ReadFile path])
            | NoEnt \<Rightarrow>
                (mark_modified False
                   (remove_file_monitor (s\<lparr>buffer := [], current_file := path\<rparr>)),
                 prompts @ [ReadFile path])
            | OtherError \<Rightarrow> (s, prompts @ [ReadFile path])))"

text \<open>
  The assignment \<^verbatim>\<open>suppress_monitor_once_ = true\<close> that precedes every write of the
  editor itself (lines 562 and 606): the \<open>markOwnWrite\<close> of the specification.
\<close>

definition mark_own_write :: "editor \<Rightarrow> editor" where
  "mark_own_write s = s\<lparr>suppress_monitor_once := True\<rparr>"

text \<open>
  \<^verbatim>\<open>Editor::save_file_as\<close> and \<^verbatim>\<open>Editor::save_file\<close>. The text written is the buffer
  text after \<^verbatim>\<open>apply_save_fixes\<close>; the buffer itself is not changed. The best-effort
  backup copy of lines 552-559 touches only the disk and is left out.
\<close>

definition save_file_as :: "world \<Rightarrow> editor \<Rightarrow> editor \<times> effect list" where
  "save_file_as w s =
     (case chosen_file w of
        None \<Rightarrow> (s, [])
      | Some filename \<Rightarrow>
          (let text = apply_save_fixes (trim_ws_on_save s) (ensure_newline_eof s) (buffer s);
               s1 = mark_own_write s
           in if write_ok w
              then (mark_modified False
                      ((install_file_monitor filename w (s1\<lparr>current_file := filename\<rparr>))
                         \<lparr>file_mtime_utc_us := mtime_saved w\<rparr>),
                    [WriteFile filename text])
              else (s1, [WriteFile filename text])))"

definition save_file :: "world \<Rightarrow> editor \<Rightarrow> editor \<times> effect list" where
  "save_file w s =
     (if current_file s = [] then save_file_as w s
      else
        (let text = apply_save_fixes (trim_ws_on_save s) (ensure_newline_eof s) (buffer s);
             s1 = mark_own_write s
         in if write_ok w
            then (mark_modified False (s1\<lparr>file_mtime_utc_us := mtime_saved w\<rparr>),
                  [WriteFile (current_file s) text])
            else (s1, [WriteFile (current_file s) text])))"

text \<open>
  \<^verbatim>\<open>Editor::s_on_file_monitor_changed\<close>. The callback returns nothing; the first
  component of the model's result names the exit taken: \<open>Ignore\<close> for each early
  \<^verbatim>\<open>return\<close> of lines 1235-1251, \<open>ExternalChangeDetected\<close> once line 1253 stores the
  new modification time.
\<close>

datatype notification = Ignore | ExternalChangeDetected

definition s_on_file_monitor_changed ::
  "GFileMonitorEvent \<Rightarrow> world \<Rightarrow> editor \<Rightarrow> notification \<times> editor \<times> effect list" where
  "s_on_file_monitor_changed ev w s =
     (if current_file s = [] then (Ignore, s, [])
      else if suppress_monitor_once s then (Ignore, s\<lparr>suppress_monitor_once := False\<rparr>, [])
      else if ev \<noteq> G_FILE_MONITOR_EVENT_CHANGED \<and>
              ev \<noteq> G_FILE_MONITOR_EVENT_CHANGES_DONE_HINT \<and>
              ev \<noteq> G_FILE_MONITOR_EVENT_CREATED \<and>
              ev \<noteq> G_FILE_MONITOR_EVENT_MOVED_IN
           then (Ignore, s, [])
      else
        (let now_mtime = mtime_now w
         in if now_mtime = 0 then (Ignore, s, [])
            else if now_mtime = file_mtime_utc_us s then (Ignore, s, [])
            else
              (let s1 = s\<lparr>file_mtime_utc_us := now_mtime\<rparr>
               in if modified s1 then
                    (case confirm_reload_external w of
                       (ok, e) \<Rightarrow>
                         if ok then
                           (case open_file_from_path (current_file s1) w s1 of
                              (s2, e2) \<Rightarrow> (ExternalChangeDetected, s2, e @ e2))
                         else (ExternalChangeDetected, s1, e))
                  else
                    (case open_file_from_path (current_file s1) w s1 of
                       (s2, e2) \<Rightarrow> (ExternalChangeDetected, s2, e2)))))"

text \<open>
  The states of the reconciler in the specification, read off the editor fields:
  a file is watched when the monitor exists for the current, non-empty path.
\<close>

definition Watching :: "string \<Rightarrow> 64 word \<Rightarrow> editor \<Rightarrow> bool" where
  "Watching path lastMtime s =
     (path \<noteq> [] \<and> current_file s = path \<and> file_monitor s = Some path \<and>
      file_mtime_utc_us s = lastMtime \<and> suppress_monitor_once s = False)"

definition SuppressedOnce :: "string \<Rightarrow> 64 word \<Rightarrow> editor \<Rightarrow> bool" where
  "SuppressedOnce path lastMtime s =
     (path \<noteq> [] \<and> current_file s = path \<and> file_monitor s = Some path \<and>
      file_mtime_utc_us s = lastMtime \<and> suppress_monitor_once s = True)"

section \<open>Notions used to state the properties\<close>

text \<open>
  The pattern occurs in the text when the match primitive accepts some offset. A
  non-empty pattern cannot match at the very end of the text, so the offsets below the
  length are all there is to try.
\<close>

definition occurs :: "string \<Rightarrow> string \<Rightarrow> bool" where
  "occurs pat text = list_ex (match_at pat text) [0..<length text]"

text \<open>
  The trimming transform in the words of the specification: split the text into lines
  at every line feed, strip each line, join the lines with line feeds. These definitions
  follow the specification, not the code, and serve only to state how the code's
  \<^verbatim>\<open>getline\<close> loop relates to them.
\<close>

fun split_lines :: "string \<Rightarrow> string list" where
  "split_lines [] = [[]]"
| "split_lines (c # cs) =
     (if c = NL then [] # split_lines cs
      else (case split_lines cs of [] \<Rightarrow> [[c]] | l # ls \<Rightarrow> (c # l) # ls))"

fun join_lines :: "string list \<Rightarrow> string" where
  "join_lines [] = []"
| "join_lines [l] = l"
| "join_lines (l # l' # ls) = l @ [NL] @ join_lines (l' # ls)"

definition trim_by_lines :: "string \<Rightarrow> string" where
  "trim_by_lines t = join_lines (map rtrim_copy (split_lines t))"

text \<open>The text without its last character when that is a line feed.\<close>

definition without_final_line_feed :: "string \<Rightarrow> string" where
  "without_final_line_feed t = (if t \<noteq> [] \<and> last t = NL then butlast t else t)"

text \<open>The text ends with two line feeds, that is with an empty line before its end.\<close>

definition ends_with_two_line_feeds :: "string \<Rightarrow> bool" where
  "ends_with_two_line_feeds u = (2 \<le> length u \<and> last u = NL \<and> last (butlast u) = NL)"

text \<open>
  A concrete editor and a concrete world for the examples: the file
  \<^verbatim>\<open>/tmp/notes.txt\<close> is open with unsaved edits and was last seen with modification
  time \<open>1\<close>; on disk it now has modification time \<open>2\<close>, and the user answers
  "Cancel" in every dialog.
\<close>

definition example_editor :: editor where
  "example_editor =
     \<lparr>buffer = ''local edits'', current_file = ''/tmp/notes.txt'', modified = True,
      file_monitor = Some ''/tmp/notes.txt'', file_mtime_utc_us = 1,
      suppress_monitor_once = False, opened_via_cli = False,
      trim_ws_on_save = True, ensure_newline_eof = True\<rparr>"

definition example_world :: world where
  "example_world =
     \<lparr>mtime_now = 2, mtime_installed = 2, mtime_saved = 3,
      reload_answer = False, discard_answer = False, read_file = Contents ''disk text'',
      monitor_error = False, write_ok = True, chosen_file = None\<rparr>"

section \<open>Auxiliary facts\<close>

declare rtrim_copy.simps [simp del] trim_loop.simps [simp del] replace_loop.simps [simp del]
  replace_edits.simps [simp del]

lemmas monitor_defs = s_on_file_monitor_changed_def open_file_from_path_def
  confirm_reload_external_def maybe_confirm_discard_def install_file_monitor_def
  remove_file_monitor_def mark_modified_def mark_own_write_def

lemmas example_defs = example_editor_def example_world_def Watching_def SuppressedOnce_def

lemma match_at_bound: "match_at pat text i \<Longrightarrow> i < length text \<and> pat \<noteq> []"
  by (cases pat) (auto simp: match_at_def)

lemma occurs_iff: "occurs pat text = (\<exists>i. match_at pat text i)"
  unfolding occurs_def list_ex_iff using match_at_bound by fastforce

lemma forward_None_iff:
  "(gtk_source_search_context_forward pat text c = None) = (\<forall>i\<ge>c. \<not> match_at pat text i)"
  by (auto simp: gtk_source_search_context_forward_def find_None_iff dest: match_at_bound)

lemma backward_None_iff:
  "(gtk_source_search_context_backward pat text c = None) = (\<forall>i<c. \<not> match_at pat text i)"
  by (auto simp: gtk_source_search_context_backward_def find_None_iff)

lemma forward_Some:
  assumes "gtk_source_search_context_forward pat text c = Some (s, e)"
  shows "match_at pat text s \<and> c \<le> s \<and> e = s + length pat \<and> (\<forall>j. c \<le> j \<and> j < s \<longrightarrow> \<not> match_at pat text j)"
proof -
  from assms have f: "List.find (match_at pat text) [c..<length text] = Some s" and e: "e = s + length pat"
    by (auto simp: gtk_source_search_context_forward_def)
  from f obtain k where k: "k < length [c..<length text]" "match_at pat text ([c..<length text] ! k)"
    "s = [c..<length text] ! k" "\<forall>j<k. \<not> match_at pat text ([c..<length text] ! j)"
    by (auto simp: find_Some_iff)
  from k(1,3) have s: "s = c + k" "c + k < length text" by auto
  have "\<not> match_at pat text j" if "c \<le> j" "j < s" for j
  proof -
    from that s have "j - c < k" by arith
    with k(4) have "\<not> match_at pat text ([c..<length text] ! (j - c))" by blast
    moreover from that s have "[c..<length text] ! (j - c) = j" by simp
    ultimately show ?thesis by simp
  qed
  with k(2,3) s e show ?thesis by auto
qed

lemma backward_Some:
  assumes "gtk_source_search_context_backward pat text c = Some (s, e)"
  shows "match_at pat text s \<and> s < c \<and> e = s + length pat
     \<and> (\<forall>j. s < j \<and> j < c \<longrightarrow> \<not> match_at pat text j)"
proof -
  from assms have f: "List.find (match_at pat text) (rev [0..<c]) = Some s"
    and e: "e = s + length pat"
    by (auto simp: gtk_source_search_context_backward_def)
  from f obtain k where k: "k < c" "match_at pat text (rev [0..<c] ! k)"
    "s = rev [0..<c] ! k" "\<forall>j<k. \<not> match_at pat text (rev [0..<c] ! j)"
    by (auto simp: find_Some_iff)
  from k(1,3) have s: "s = c - Suc k" by (simp add: rev_nth)
  have "\<not> match_at pat text j" if "s < j" "j < c" for j
  proof -
    from that s k(1) have lt: "c - Suc j < k" by arith
    from that have "rev [0..<c] ! (c - Suc j) = j" by (simp add: rev_nth)
    with k(4) lt show ?thesis by force
  qed
  with k e s show ?thesis by auto
qed

lemma replace_step_length:
  assumes "match_at pat text mstart"
  shows "int (length (fst (replace_step repl text mstart (mstart + length pat)))) =
         int (length text) + (int (length repl) - int (length pat))"
proof -
  from assms have "mstart + length pat \<le> length text" by (simp add: match_at_def)
  then show ?thesis
    by (simp add: replace_step_def gtk_text_buffer_delete_def gtk_text_buffer_insert_def)
qed

lemma replace_loop_None:
  "gtk_source_search_context_forward pat text iter = None \<Longrightarrow>
   replace_loop pat repl text iter count = (text, count)"
  by (simp add: replace_loop.simps [of pat repl "text" iter count])

lemma replace_loop_Some:
  "gtk_source_search_context_forward pat text iter = Some (mstart, mend) \<Longrightarrow>
   replace_loop pat repl text iter count =
     replace_loop pat repl (fst (replace_step repl text mstart mend))
       (snd (replace_step repl text mstart mend)) (count + 1)"
  by (simp add: replace_loop.simps [of pat repl "text" iter count] split: prod.splits)

lemma replace_loop_count:
  "count \<le> snd (replace_loop pat repl buf iter count) \<and>
   int (length (fst (replace_loop pat repl buf iter count))) =
     int (length buf) +
     (int (snd (replace_loop pat repl buf iter count)) - int count) *
       (int (length repl) - int (length pat))"
proof (induction pat repl buf iter count rule: replace_loop.induct)
  case (1 pat repl buf iter count)
  show ?case
  proof (cases "gtk_source_search_context_forward pat buf iter")
    case None
    then show ?thesis by (simp add: replace_loop_None)
  next
    case (Some m)
    obtain mstart mend where m: "m = (mstart, mend)" by (cases m)
    obtain buf' iter' where st: "(buf', iter') = replace_step repl buf mstart mend"
      by (cases "replace_step repl buf mstart mend") auto
    from Some m have f: "gtk_source_search_context_forward pat buf iter = Some (mstart, mend)" by simp
    note ih = "1.IH" [OF Some m [symmetric] st]
    from st have fs: "fst (replace_step repl buf mstart mend) = buf'"
      "snd (replace_step repl buf mstart mend) = iter'" by (auto dest: sym)
    have eq: "replace_loop pat repl buf iter count = replace_loop pat repl buf' iter' (count + 1)"
      using replace_loop_Some [OF f, of repl count] fs by simp
    from forward_Some [OF f] have ma: "match_at pat buf mstart" and me: "mend = mstart + length pat"
      by auto
    from replace_step_length [OF ma, of repl] me fs
    have len: "int (length buf') = int (length buf) + (int (length repl) - int (length pat))"
      by simp
    from ih len show ?thesis unfolding eq by (simp add: algebra_simps)
  qed
qed

lemma replace_step_text:
  "mstart \<le> length text \<Longrightarrow>
   fst (replace_step repl text mstart mend) = replace_range repl text (mstart, mend)"
  by (simp add: replace_step_def gtk_text_buffer_delete_def gtk_text_buffer_insert_def
      replace_range_def)

lemma replace_edits_None:
  "gtk_source_search_context_forward pat text iter = None \<Longrightarrow>
   replace_edits pat repl text iter = []"
  by (simp add: replace_edits.simps [of pat repl "text" iter])

lemma replace_edits_Some:
  "gtk_source_search_context_forward pat text iter = Some (mstart, mend) \<Longrightarrow>
   replace_edits pat repl text iter =
     (mstart, mend) # replace_edits pat repl (fst (replace_step repl text mstart mend))
       (snd (replace_step repl text mstart mend))"
  by (simp add: replace_edits.simps [of pat repl "text" iter] split: prod.splits)

lemma replace_loop_edits:
  "replace_loop pat repl buf iter count =
     (foldl (replace_range repl) buf (replace_edits pat repl buf iter),
      count + length (replace_edits pat repl buf iter))"
proof (induction pat repl buf iter count rule: replace_loop.induct)
  case (1 pat repl buf iter count)
  show ?case
  proof (cases "gtk_source_search_context_forward pat buf iter")
    case None
    then show ?thesis by (simp add: replace_loop_None replace_edits_None)
  next
    case (Some m)
    obtain mstart mend where m: "m = (mstart, mend)" by (cases m)
    obtain buf' iter' where st: "(buf', iter') = replace_step repl buf mstart mend"
      by (cases "replace_step repl buf mstart mend") auto
    from Some m have f: "gtk_source_search_context_forward pat buf iter = Some (mstart, mend)"
      by simp
    note ih = "1.IH" [OF Some m [symmetric] st]
    from st have fs: "fst (replace_step repl buf mstart mend) = buf'"
      "snd (replace_step repl buf mstart mend) = iter'" by (auto dest: sym)
    from forward_Some [OF f] have "mstart \<le> length buf"
      by (simp add: match_at_def)
    with fs(1) have b: "buf' = replace_range repl buf (mstart, mend)"
      by (simp add: replace_step_text)
    have l: "replace_loop pat repl buf iter count = replace_loop pat repl buf' iter' (count + 1)"
      using replace_loop_Some [OF f, of repl count] fs by simp
    have e: "replace_edits pat repl buf iter = (mstart, mend) # replace_edits pat repl buf' iter'"
      using replace_edits_Some [OF f, of repl] fs by simp
    show ?thesis unfolding l e ih by (simp add: b)
  qed
qed

lemma replace_edits_ranges:
  "r \<in> set (replace_edits pat repl buf iter) \<Longrightarrow> snd r = fst r + length pat"
proof (induction pat repl buf iter arbitrary: r rule: replace_edits.induct)
  case (1 pat repl buf iter)
  show ?case
  proof (cases "gtk_source_search_context_forward pat buf iter")
    case None
    with "1.prems" show ?thesis by (simp add: replace_edits_None)
  next
    case (Some m)
    obtain mstart mend where m: "m = (mstart, mend)" by (cases m)
    obtain buf' iter' where st: "(buf', iter') = replace_step repl buf mstart mend"
      by (cases "replace_step repl buf mstart mend") auto
    from Some m have f: "gtk_source_search_context_forward pat buf iter = Some (mstart, mend)"
      by simp
    from st have fs: "fst (replace_step repl buf mstart mend) = buf'"
      "snd (replace_step repl buf mstart mend) = iter'" by (auto dest: sym)
    have e: "replace_edits pat repl buf iter = (mstart, mend) # replace_edits pat repl buf' iter'"
      using replace_edits_Some [OF f, of repl] fs by simp
    from "1.prems" e have "r = (mstart, mend) \<or> r \<in> set (replace_edits pat repl buf' iter')"
      by simp
    then show ?thesis
    proof
      assume "r = (mstart, mend)"
      with forward_Some [OF f] show ?thesis by simp
    next
      assume "r \<in> set (replace_edits pat repl buf' iter')"
      then show ?thesis by (rule "1.IH" [OF Some m [symmetric] st])
    qed
  qed
qed

lemma replace_edits_Nil_iff:
  "(replace_edits pat repl text 0 = []) = (\<not> occurs pat text)"
proof (cases "gtk_source_search_context_forward pat text 0")
  case None
  then show ?thesis
    by (simp add: replace_edits_None forward_None_iff occurs_iff)
next
  case (Some m)
  obtain mstart mend where m: "m = (mstart, mend)" by (cases m)
  from Some m have f: "gtk_source_search_context_forward pat text 0 = Some (mstart, mend)"
    by simp
  from forward_Some [OF f] have "occurs pat text" by (auto simp: occurs_iff)
  then show ?thesis by (simp add: replace_edits_Some [OF f])
qed

text \<open>
  Where the loop body leaves the scan position: the insertion has already moved
  \<^verbatim>\<open>mstart\<close> behind the replacement, and \<^verbatim>\<open>gtk_text_iter_forward_chars\<close> then adds the
  length of the replacement once more (stopping at the end of the buffer).
\<close>

lemma replace_step_iter:
  assumes "match_at pat text mstart"
  shows "snd (replace_step repl text mstart (mstart + length pat)) =
         min (mstart + length repl + length repl) (length text - length pat + length repl)"
proof -
  from assms have "mstart + length pat \<le> length text" by (simp add: match_at_def)
  then show ?thesis
    by (simp add: replace_step_def gtk_text_buffer_delete_def gtk_text_buffer_insert_def
        gtk_text_iter_forward_chars_def)
qed

text \<open>
  The \<^verbatim>\<open>getline\<close> loop against the line-wise transform: the loop computes the
  line-wise transform of the text without its final line feed. A text that ends with a
  line feed therefore comes out one line shorter.
\<close>

lemma split_lines_not_Nil: "split_lines t \<noteq> []"
  by (induction t) (auto split: list.splits)

lemma split_lines_no_NL: "NL \<notin> set l \<Longrightarrow> split_lines l = [l]"
  by (induction l) auto

lemma split_lines_append: "NL \<notin> set l \<Longrightarrow> split_lines (l @ NL # u) = l # split_lines u"
  by (induction l) auto

lemma join_lines_Cons: "ls \<noteq> [] \<Longrightarrow> join_lines (l # ls) = l @ [NL] @ join_lines ls"
  by (cases ls) auto

lemma getline_cases:
  assumes "inp \<noteq> []"
  obtains line where "NL \<notin> set line" "inp = line" "getline inp = Some (line, [])"
  | line rest where "NL \<notin> set line" "inp = line @ NL # rest" "getline inp = Some (line, rest)"
proof -
  let ?P = "\<lambda>c. c \<noteq> NL"
  have dec: "inp = takeWhile ?P inp @ dropWhile ?P inp" by simp
  have nl: "NL \<notin> set (takeWhile ?P inp)" by (auto dest: set_takeWhileD)
  show thesis
  proof (cases "dropWhile ?P inp")
    case Nil
    with dec have "inp = takeWhile ?P inp" by simp
    moreover have "getline inp = Some (takeWhile ?P inp, [])"
      using assms unfolding getline_def Nil by simp
    ultimately show thesis using nl that(1) by metis
  next
    case (Cons c rest)
    have "c = NL" using hd_dropWhile [of ?P inp] Cons by auto
    with Cons dec have "inp = takeWhile ?P inp @ NL # rest" by simp
    moreover have "getline inp = Some (takeWhile ?P inp, rest)"
      using assms unfolding getline_def Cons by simp
    ultimately show thesis using nl that(2) by metis
  qed
qed

lemma trim_loop_Nil: "trim_loop [] out first = out"
  by (simp add: trim_loop.simps [of "[]"] getline_def)

lemma trim_loop_by_lines:
  "inp \<noteq> [] \<Longrightarrow>
   trim_loop inp out first =
     (if first then out else out @ [NL]) @ trim_by_lines (without_final_line_feed inp)"
proof (induction "length inp" arbitrary: inp out first rule: less_induct)
  case less
  let ?pre = "if first then out else out @ [NL]"
  from less.prems show ?case
  proof (cases inp rule: getline_cases)
    case (1 line)
    from 1(3) have "trim_loop inp out first = trim_loop [] (?pre @ rtrim_copy line) False"
      by (subst trim_loop.simps) simp
    then have "trim_loop inp out first = ?pre @ rtrim_copy line"
      by (simp only: trim_loop_Nil)
    moreover have "last line \<in> set line"
      using 1(2) \<open>inp \<noteq> []\<close> by simp
    with 1(1) have "last line \<noteq> NL"
      by (rule_tac notI) simp
    with 1 have "without_final_line_feed inp = line"
      by (simp add: without_final_line_feed_def)
    ultimately show ?thesis using 1
      by (simp add: trim_by_lines_def split_lines_no_NL)
  next
    case (2 line rest)
    from 2(3) have step: "trim_loop inp out first = trim_loop rest (?pre @ rtrim_copy line) False"
      by (subst trim_loop.simps) simp
    show ?thesis
    proof (cases "rest = []")
      case True
      with 2 have "without_final_line_feed inp = line"
        by (simp add: without_final_line_feed_def)
      with step True 2 show ?thesis
        by (simp add: trim_loop_Nil trim_by_lines_def split_lines_no_NL)
    next
      case False
      from 2(2) have "length rest < length inp" by simp
      from less.hyps [OF this False]
      have ih: "trim_loop rest (?pre @ rtrim_copy line) False =
          ((?pre @ rtrim_copy line) @ [NL]) @ trim_by_lines (without_final_line_feed rest)"
        by simp
      from False 2 have w: "without_final_line_feed inp = line @ NL # without_final_line_feed rest"
        by (auto simp: without_final_line_feed_def butlast_append)
      have "trim_by_lines (line @ NL # without_final_line_feed rest) =
          rtrim_copy line @ [NL] @ trim_by_lines (without_final_line_feed rest)"
        using 2(1) by (simp add: trim_by_lines_def split_lines_append join_lines_Cons split_lines_not_Nil)
      with step ih w show ?thesis by simp
    qed
  qed
qed


lemma trimTrailingWhitespace_by_lines:
  "trimTrailingWhitespace t = trim_by_lines (without_final_line_feed t)"
proof (cases "t = []")
  case True
  then show ?thesis
    by (simp add: trimTrailingWhitespace_def apply_save_fixes_def trim_loop_Nil
        trim_by_lines_def without_final_line_feed_def rtrim_copy.simps [of "[]"])
next
  case False
  then show ?thesis
    by (simp add: trimTrailingWhitespace_def apply_save_fixes_def trim_loop_by_lines)
qed


lemma rtrim_copy_set: "set (rtrim_copy s) \<subseteq> set s"
proof (induction s rule: rtrim_copy.induct)
  case (1 s)
  show ?case
  proof (cases "s \<noteq> [] \<and> is_space_char (last s)")
    case True
    with 1 have "set (rtrim_copy (butlast s)) \<subseteq> set (butlast s)" by simp
    moreover have "set (butlast s) \<subseteq> set s" by (auto dest: in_set_butlastD)
    moreover from True have "rtrim_copy s = rtrim_copy (butlast s)"
      by (subst rtrim_copy.simps) simp
    ultimately show ?thesis by auto
  next
    case False
    then have "rtrim_copy s = s" by (subst rtrim_copy.simps) auto
    then show ?thesis by simp
  qed
qed

lemma rtrim_copy_idem: "rtrim_copy (rtrim_copy s) = rtrim_copy s"
proof (induction s rule: rtrim_copy.induct)
  case (1 s)
  show ?case
  proof (cases "s \<noteq> [] \<and> is_space_char (last s)")
    case True
    then have "rtrim_copy s = rtrim_copy (butlast s)"
      by (subst rtrim_copy.simps) simp
    with 1 True show ?thesis by simp
  next
    case False
    then have "rtrim_copy s = s" by (subst rtrim_copy.simps) auto
    then show ?thesis by simp
  qed
qed

lemma split_lines_elems: "l \<in> set (split_lines t) \<Longrightarrow> NL \<notin> set l"
proof (induction t arbitrary: l)
  case Nil
  then show ?case by simp
next
  case (Cons c cs)
  show ?case
  proof (cases "c = NL")
    case True
    with Cons show ?thesis by auto
  next
    case False
    obtain l0 ls where sp: "split_lines cs = l0 # ls"
      using split_lines_not_Nil [of cs] by (cases "split_lines cs") auto
    with False Cons.prems have "l = c # l0 \<or> l \<in> set ls" by simp
    moreover from sp Cons.IH have "NL \<notin> set l0" "\<And>x. x \<in> set ls \<Longrightarrow> NL \<notin> set x" by auto
    ultimately show ?thesis using False by auto
  qed
qed

lemma split_join_lines:
  "ls \<noteq> [] \<Longrightarrow> \<forall>l\<in>set ls. NL \<notin> set l \<Longrightarrow> split_lines (join_lines ls) = ls"
proof (induction ls rule: join_lines.induct)
  case 1
  then show ?case by simp
next
  case (2 l)
  then show ?case by (simp add: split_lines_no_NL)
next
  case (3 l l' ls)
  then show ?case by (simp add: split_lines_append)
qed

lemma split_lines_trim_by_lines:
  "split_lines (trim_by_lines t) = map rtrim_copy (split_lines t)"
proof -
  have "\<forall>l\<in>set (map rtrim_copy (split_lines t)). NL \<notin> set l"
    using split_lines_elems rtrim_copy_set by fastforce
  then show ?thesis
    unfolding trim_by_lines_def by (intro split_join_lines) (simp_all add: split_lines_not_Nil)
qed

lemma trim_by_lines_idem: "trim_by_lines (trim_by_lines t) = trim_by_lines t"
proof -
  have "trim_by_lines (trim_by_lines t) = join_lines (map rtrim_copy (split_lines (trim_by_lines t)))"
    by (simp add: trim_by_lines_def)
  also have "\<dots> = join_lines (map rtrim_copy (map rtrim_copy (split_lines t)))"
    by (simp only: split_lines_trim_by_lines)
  also have "\<dots> = trim_by_lines t"
    by (simp add: trim_by_lines_def rtrim_copy_idem comp_def)
  finally show ?thesis .
qed

lemma split_lines_snoc: "split_lines (t @ [NL]) = split_lines t @ [[]]"
  by (induction t) (auto split: list.splits simp: split_lines_not_Nil)

lemma trimTrailingWhitespace_lines:
  "split_lines (trimTrailingWhitespace t) =
     map rtrim_copy (split_lines (without_final_line_feed t))"
  by (simp add: trimTrailingWhitespace_by_lines split_lines_trim_by_lines)

lemma trimTrailingWhitespace_line_count:
  "length (split_lines (trimTrailingWhitespace t)) =
     (if t \<noteq> [] \<and> last t = NL then length (split_lines t) - 1 else length (split_lines t))"
proof (cases "t \<noteq> [] \<and> last t = NL")
  case True
  then have "t = butlast t @ [NL]" by (metis append_butlast_last_id)
  then have "split_lines t = split_lines (butlast t) @ [[]]"
    by (metis split_lines_snoc)
  with True show ?thesis
    by (simp add: trimTrailingWhitespace_lines without_final_line_feed_def)
next
  case False
  then show ?thesis
    by (auto simp add: trimTrailingWhitespace_lines without_final_line_feed_def)
qed

text \<open>
  Applying the transforms twice. A trimmed text is a fixed point of the line-wise
  transform, so a second application changes it only through the final line feed that
  the \<^verbatim>\<open>getline\<close> loop drops.
\<close>

lemma join_lines_Cons_Cons: "join_lines ((c # l) # ls) = c # join_lines (l # ls)"
  by (cases ls) auto

lemma join_split_lines: "join_lines (split_lines v) = v"
proof (induction v)
  case Nil
  show ?case by simp
next
  case (Cons c cs)
  obtain l ls where sp: "split_lines cs = l # ls"
    using split_lines_not_Nil [of cs] by (cases "split_lines cs") auto
  show ?case
  proof (cases "c = NL")
    case True
    with Cons show ?thesis by (simp add: join_lines_Cons split_lines_not_Nil)
  next
    case False
    with Cons sp show ?thesis by (simp add: join_lines_Cons_Cons)
  qed
qed

lemma trim_by_lines_fixed:
  assumes "\<forall>l\<in>set (split_lines v). rtrim_copy l = l"
  shows "trim_by_lines v = v"
proof -
  from assms have "map rtrim_copy (split_lines v) = split_lines v"
    by (simp add: map_idI)
  then show ?thesis by (simp add: trim_by_lines_def join_split_lines)
qed

lemma trimmed_lines_fixed:
  "\<forall>l\<in>set (split_lines (trimTrailingWhitespace t)). rtrim_copy l = l"
  by (auto simp: trimTrailingWhitespace_lines rtrim_copy_idem)

lemma trim_of_trimmed_snoc:
  "trimTrailingWhitespace (trimTrailingWhitespace t @ [NL]) = trimTrailingWhitespace t"
proof -
  have "trimTrailingWhitespace (trimTrailingWhitespace t @ [NL]) =
        trim_by_lines (trimTrailingWhitespace t)"
    by (simp add: trimTrailingWhitespace_by_lines [of "trimTrailingWhitespace t @ [NL]"]
        without_final_line_feed_def)
  also have "\<dots> = trimTrailingWhitespace t"
    by (rule trim_by_lines_fixed) (rule trimmed_lines_fixed)
  finally show ?thesis .
qed

lemma trim_of_trimmed_line_feed:
  assumes "trimTrailingWhitespace t = v @ [NL]"
  shows "trimTrailingWhitespace (v @ [NL]) = v"
proof -
  have "split_lines (v @ [NL]) = split_lines v @ [[]]" by (rule split_lines_snoc)
  with trimmed_lines_fixed [of t] assms have "\<forall>l\<in>set (split_lines v). rtrim_copy l = l"
    by simp
  then have "trim_by_lines v = v" by (rule trim_by_lines_fixed)
  then show ?thesis
    by (simp add: trimTrailingWhitespace_by_lines [of "v @ [NL]"] without_final_line_feed_def)
qed

lemma apply_save_fixes_both:
  "apply_save_fixes True True t = ensureTrailingNewline (trimTrailingWhitespace t)"
  by (simp add: apply_save_fixes_def ensureTrailingNewline_def trimTrailingWhitespace_def)

lemma ensure_cases:
  "ensureTrailingNewline u = (if u = [] \<or> last u \<noteq> NL then u @ [NL] else u)"
  by (simp add: ensureTrailingNewline_def apply_save_fixes_def)

lemma apply_save_fixes_twice_iff:
  "(apply_save_fixes True True (apply_save_fixes True True t) = apply_save_fixes True True t) =
   (\<not> ends_with_two_line_feeds (trimTrailingWhitespace t))"
proof -
  let ?u = "trimTrailingWhitespace t"
  show ?thesis
  proof (cases "?u = [] \<or> last ?u \<noteq> NL")
    case True
    then have f: "apply_save_fixes True True t = ?u @ [NL]"
      by (simp add: apply_save_fixes_both ensure_cases)
    have "apply_save_fixes True True (?u @ [NL]) = ensureTrailingNewline ?u"
      by (simp only: apply_save_fixes_both trim_of_trimmed_snoc)
    with True f have "apply_save_fixes True True (apply_save_fixes True True t) =
        apply_save_fixes True True t"
      by (simp add: ensure_cases)
    moreover from True have "\<not> ends_with_two_line_feeds ?u"
      by (auto simp: ends_with_two_line_feeds_def)
    ultimately show ?thesis by simp
  next
    case False
    then obtain v where v: "?u = v @ [NL]"
      by (metis append_butlast_last_id)
    from False have f: "apply_save_fixes True True t = ?u"
      by (simp add: apply_save_fixes_both ensure_cases)
    have h: "apply_save_fixes True True (v @ [NL]) = ensureTrailingNewline v"
      by (simp only: apply_save_fixes_both trim_of_trimmed_line_feed [OF v])
    have e: "ends_with_two_line_feeds (v @ [NL]) = (v \<noteq> [] \<and> last v = NL)"
      by (cases v) (auto simp: ends_with_two_line_feeds_def)
    show ?thesis
      unfolding f v h e by (auto simp: ensure_cases)
  qed
qed

lemma trimTrailingWhitespace_twice_iff:
  "(trimTrailingWhitespace (trimTrailingWhitespace t) = trimTrailingWhitespace t) =
   (trimTrailingWhitespace t = [] \<or> last (trimTrailingWhitespace t) \<noteq> NL)"
proof -
  let ?u = "trimTrailingWhitespace t"
  show ?thesis
  proof (cases "?u = [] \<or> last ?u \<noteq> NL")
    case True
    then have "without_final_line_feed ?u = ?u"
      by (auto simp: without_final_line_feed_def)
    then have "trimTrailingWhitespace ?u = trim_by_lines ?u"
      by (simp add: trimTrailingWhitespace_by_lines [of ?u])
    also have "\<dots> = ?u"
      by (rule trim_by_lines_fixed) (rule trimmed_lines_fixed)
    finally show ?thesis using True by simp
  next
    case False
    then obtain v where v: "?u = v @ [NL]"
      by (metis append_butlast_last_id)
    from trim_of_trimmed_line_feed [OF v] have "trimTrailingWhitespace ?u = v"
      by (simp add: v)
    with False v show ?thesis by simp
  qed
qed

lemma ensureTrailingNewline_idem:
  "ensureTrailingNewline (ensureTrailingNewline t) = ensureTrailingNewline t"
  by (simp add: ensureTrailingNewline_def apply_save_fixes_def)

section \<open>Search and replace: the properties\<close>

text \<open>
  C1. Replace-all is a single forward pass from offset 0 that never wraps and never
  rescans the inserted replacement, and the loop terminates on every input (the
  termination proof of \<open>replace_loop\<close>). The scan position after a substitution is
  however not immediately behind the inserted replacement: the insertion leaves the
  iterator there, and the loop body then moves it forward by the length of the
  replacement once more, so that many characters of the remaining text are never
  searched: for a match at \<open>mstart\<close> the next search starts at \<open>mstart\<close> plus twice
  the length of the replacement, or at the end of the buffer when that comes first. For
  the text \<open>aaa\<close>, the pattern \<open>a\<close> and the replacement \<open>aa\<close> the loop
  performs one replacement and leaves \<open>aaaa\<close>, not three replacements and \<open>aaaaaa\<close>;
  replacing \<open>a\<close> by \<open>b\<close> in \<open>aaa\<close> leaves \<open>bab\<close> after two replacements. The
  numbers of replacements are the values of the loop's counter when it stops.
\<close>

theorem search_replace_all_skips_text:
  "(match_at pat text mstart \<longrightarrow>
      snd (replace_step repl text mstart (mstart + length pat)) =
        min (mstart + length repl + length repl) (length text - length pat + length repl))
   \<and> search_replace_all ''a'' ''aa'' ''aaa'' = ''aaaa''
   \<and> replace_loop ''a'' ''aa'' ''aaa'' 0 0 = (''aaaa'', 1)
   \<and> search_replace_all ''a'' ''b'' ''aaa'' = ''bab''
   \<and> replace_loop ''a'' ''b'' ''aaa'' 0 0 = (''bab'', 2)"
proof (intro conjI impI)
  assume "match_at pat text mstart"
  then show "snd (replace_step repl text mstart (mstart + length pat)) =
        min (mstart + length repl + length repl) (length text - length pat + length repl)"
    by (rule replace_step_iter)
next
  show "search_replace_all ''a'' ''aa'' ''aaa'' = ''aaaa''" by code_simp
next
  show "replace_loop ''a'' ''aa'' ''aaa'' 0 0 = (''aaaa'', 1)" by code_simp
next
  show "search_replace_all ''a'' ''b'' ''aaa'' = ''bab''" by code_simp
next
  show "replace_loop ''a'' ''b'' ''aaa'' 0 0 = (''bab'', 2)" by code_simp
qed

theorem search_replace_all_skips_text_witness:
  "match_at ''a'' ''aaa'' 0 \<and> snd (replace_step ''aa'' ''aaa'' 0 1) = 4"
proof -
  have m: "match_at ''a'' ''aaa'' 0" by code_simp
  from search_replace_all_skips_text [of "''a''" "''aaa''" 0 "''aa''"] m
  show ?thesis by simp
qed

text \<open>
  C2. When the directional search from the cursor finds nothing, find-next repeats the
  same search once from the opposite end of the text (the start for a forward search, the
  end for a backward one). It finds nothing exactly when the pattern occurs nowhere in the
  text, which includes every empty pattern. When the pattern occurs but not in the
  direction searched, the wrapped search returns an occurrence: the first one of the text
  for a forward search, the last one for a backward search. The function makes at most
  two calls of the match primitive and has no loop.
\<close>

theorem search_find_next_wraps_once:
  "(gtk_source_search_context_forward pat text c = None \<longrightarrow>
      search_find_next pat False text c = gtk_source_search_context_forward pat text 0)
   \<and> (gtk_source_search_context_backward pat text c = None \<longrightarrow>
      search_find_next pat True text c = gtk_source_search_context_backward pat text (length text))
   \<and> (pat = [] \<longrightarrow> search_find_next pat b text c = None)
   \<and> ((search_find_next pat b text c = None) = (\<not> occurs pat text))
   \<and> (gtk_source_search_context_forward pat text c = None \<and> occurs pat text \<longrightarrow>
        (\<exists>k<c. search_find_next pat False text c = Some (k, k + length pat) \<and>
               match_at pat text k \<and> (\<forall>j<k. \<not> match_at pat text j)))
   \<and> (gtk_source_search_context_backward pat text c = None \<and> occurs pat text \<longrightarrow>
        (\<exists>k\<ge>c. search_find_next pat True text c = Some (k, k + length pat) \<and>
             match_at pat text k \<and> (\<forall>j>k. \<not> match_at pat text j)))"
proof (intro conjI impI)
  assume "gtk_source_search_context_forward pat text c = None"
  then show "search_find_next pat False text c = gtk_source_search_context_forward pat text 0"
    by (simp add: search_find_next_def)
next
  assume "gtk_source_search_context_backward pat text c = None"
  then show "search_find_next pat True text c = gtk_source_search_context_backward pat text (length text)"
    by (simp add: search_find_next_def)
next
  assume "pat = []"
  then have "\<And>i. \<not> match_at pat text i" by (simp add: match_at_def)
  then have "gtk_source_search_context_forward pat text k = None"
    "gtk_source_search_context_backward pat text k = None" for k
    by (simp_all add: forward_None_iff backward_None_iff)
  then show "search_find_next pat b text c = None"
    by (simp add: search_find_next_def)
next
  have le: "\<And>i. match_at pat text i \<Longrightarrow> i < length text"
    by (simp add: match_at_bound)
  show "(search_find_next pat b text c = None) = (\<not> occurs pat text)"
  proof (cases b)
    case True
    then have "(search_find_next pat b text c = None) =
       (gtk_source_search_context_backward pat text c = None \<and>
        gtk_source_search_context_backward pat text (length text) = None)"
      by (auto simp: search_find_next_def split: option.splits)
    also have "\<dots> = (\<not> occurs pat text)"
      using le by (auto simp: backward_None_iff occurs_iff)
    finally show ?thesis .
  next
    case False
    then have "(search_find_next pat b text c = None) =
       (gtk_source_search_context_forward pat text c = None \<and>
        gtk_source_search_context_forward pat text 0 = None)"
      by (auto simp: search_find_next_def split: option.splits)
    also have "\<dots> = (\<not> occurs pat text)"
      by (auto simp: forward_None_iff occurs_iff)
    finally show ?thesis .
  qed
next
  assume a: "gtk_source_search_context_forward pat text c = None \<and> occurs pat text"
  then have "gtk_source_search_context_forward pat text 0 \<noteq> None"
    by (auto simp: forward_None_iff occurs_iff)
  then obtain s e where se: "gtk_source_search_context_forward pat text 0 = Some (s, e)" by auto
  note fs = forward_Some [OF se]
  from a fs have "s < c" by (auto simp: forward_None_iff not_le [symmetric])
  with a se fs show "\<exists>k<c. search_find_next pat False text c = Some (k, k + length pat) \<and>
               match_at pat text k \<and> (\<forall>j<k. \<not> match_at pat text j)"
    by (auto simp: search_find_next_def)
next
  assume a: "gtk_source_search_context_backward pat text c = None \<and> occurs pat text"
  have le: "\<And>i. match_at pat text i \<Longrightarrow> i < length text"
    by (simp add: match_at_bound)
  from a le have "gtk_source_search_context_backward pat text (length text) \<noteq> None"
    by (auto simp: backward_None_iff occurs_iff)
  then obtain s e where se: "gtk_source_search_context_backward pat text (length text) = Some (s, e)" by auto
  note bs = backward_Some [OF se]
  from a bs have "c \<le> s" by (auto simp: backward_None_iff not_less [symmetric])
  moreover from bs le have "\<forall>j>s. \<not> match_at pat text j" by blast
  ultimately show "\<exists>k\<ge>c. search_find_next pat True text c = Some (k, k + length pat) \<and>
             match_at pat text k \<and> (\<forall>j>k. \<not> match_at pat text j)"
    using a se bs by (auto simp: search_find_next_def)
qed

theorem search_find_next_wraps_once_witness:
  "gtk_source_search_context_forward ''lo'' ''Hello'' 4 = None \<and> occurs ''lo'' ''Hello''
   \<and> search_find_next ''lo'' False ''Hello'' 4 = Some (3, 5)
   \<and> gtk_source_search_context_backward ''lo'' ''Hello'' 3 = None
   \<and> search_find_next ''lo'' True ''Hello'' 3 = Some (3, 5)
   \<and> search_find_next [] False ''Hello'' 1 = None"
proof -
  have 1: "gtk_source_search_context_forward ''lo'' ''Hello'' 4 = None" by code_simp
  have 2: "gtk_source_search_context_backward ''lo'' ''Hello'' 3 = None" by code_simp
  have 3: "gtk_source_search_context_forward ''lo'' ''Hello'' 0 = Some (3, 5)" by code_simp
  have 4: "gtk_source_search_context_backward ''lo'' ''Hello'' (length ''Hello'') = Some (3, 5)" by code_simp
  have 5: "occurs ''lo'' ''Hello''" by code_simp
  from 1 2 3 4 5 search_find_next_wraps_once [of "''lo''" "''Hello''" 4 False] search_find_next_wraps_once [of "''lo''" "''Hello''" 3 True]
    search_find_next_wraps_once [of "[]" "''Hello''" 1 False]
  show ?thesis by simp
qed


text \<open>
  C5, as the code has it. Replace-all leaves the final text in the buffer and hands
  nothing else to its caller. While it runs, the loop counts its substitutions in the
  local variable \<^verbatim>\<open>count\<close>: when the loop stops, the buffer is the initial text with the
  substitutions of \<open>replace_edits\<close> applied in order, and the counter is exactly their
  number. The counter is 0, with no substitution and the text unchanged, when the pattern
  is empty or does not occur in the text, and positive when the pattern occurs; every
  substitution exchanges a match, as long as the pattern, for the replacement.
\<close>

theorem search_replace_all_count:
  "replace_loop pat repl text 0 0 =
     (foldl (replace_range repl) text (replace_edits pat repl text 0),
      length (replace_edits pat repl text 0))
   \<and> search_replace_all pat repl text =
       foldl (replace_range repl) text (replace_edits pat repl text 0)
   \<and> (pat = [] \<or> \<not> occurs pat text \<longrightarrow>
        replace_edits pat repl text 0 = [] \<and> replace_loop pat repl text 0 0 = (text, 0) \<and>
        search_replace_all pat repl text = text)
   \<and> (occurs pat text \<longrightarrow> 0 < snd (replace_loop pat repl text 0 0))
   \<and> (\<forall>r\<in>set (replace_edits pat repl text 0). snd r = fst r + length pat)
   \<and> int (length (search_replace_all pat repl text)) =
       int (length text) +
       int (snd (replace_loop pat repl text 0 0)) * (int (length repl) - int (length pat))"
proof (intro conjI impI)
  show l: "replace_loop pat repl text 0 0 =
     (foldl (replace_range repl) text (replace_edits pat repl text 0),
      length (replace_edits pat repl text 0))"
    by (simp add: replace_loop_edits [of pat repl "text" 0 0])
  then show "search_replace_all pat repl text =
       foldl (replace_range repl) text (replace_edits pat repl text 0)"
    by (simp add: search_replace_all_def)
  {
    assume a: "pat = [] \<or> \<not> occurs pat text"
    have n: "\<not> occurs pat text"
    proof (cases "pat = []")
      case True
      then show ?thesis by (simp add: occurs_iff match_at_def)
    next
      case False
      with a show ?thesis by simp
    qed
    then show e: "replace_edits pat repl text 0 = []"
      by (simp add: replace_edits_Nil_iff)
    with l show "replace_loop pat repl text 0 0 = (text, 0)" by simp
    then show "search_replace_all pat repl text = text"
      by (simp add: search_replace_all_def)
  }
  {
    assume "occurs pat text"
    then have "replace_edits pat repl text 0 \<noteq> []"
      by (simp add: replace_edits_Nil_iff)
    with l show "0 < snd (replace_loop pat repl text 0 0)" by simp
  }
  show "\<forall>r\<in>set (replace_edits pat repl text 0). snd r = fst r + length pat"
    using replace_edits_ranges by blast
  show "int (length (search_replace_all pat repl text)) =
       int (length text) +
       int (snd (replace_loop pat repl text 0 0)) * (int (length repl) - int (length pat))"
    using replace_loop_count [of 0 pat repl "text" 0] by (simp add: search_replace_all_def)
qed

theorem search_replace_all_count_witness:
  "replace_loop [] ''x'' ''abc'' 0 0 = (''abc'', 0)
   \<and> replace_loop ''z'' ''x'' ''abc'' 0 0 = (''abc'', 0)
   \<and> occurs ''b'' ''abc''
   \<and> 0 < snd (replace_loop ''b'' ''xy'' ''abc'' 0 0)
   \<and> replace_loop ''a'' ''b'' ''aXaXaXa'' 0 0 =
       (foldl (replace_range ''b'') ''aXaXaXa'' [(0, 1), (2, 3), (4, 5), (6, 7)], 4)"
proof -
  have 1: "\<not> occurs ''z'' ''abc''" by code_simp
  have 2: "occurs ''b'' ''abc''" by code_simp
  have 3: "replace_edits ''a'' ''b'' ''aXaXaXa'' 0 = [(0, 1), (2, 3), (4, 5), (6, 7)]"
    by code_simp
  have 4: "length [(0::nat, 1::nat), (2, 3), (4, 5), (6, 7)] = 4" by simp
  note t = search_replace_all_count
  from t [of "[]" "''x''" "''abc''"] have a: "replace_loop [] ''x'' ''abc'' 0 0 = (''abc'', 0)"
    by simp
  from t [of "''z''" "''x''" "''abc''"] 1
  have b: "replace_loop ''z'' ''x'' ''abc'' 0 0 = (''abc'', 0)"
    by simp
  from t [of "''b''" "''xy''" "''abc''"] 2
  have c: "0 < snd (replace_loop ''b'' ''xy'' ''abc'' 0 0)"
    by blast
  from t [of "''a''" "''b''" "''aXaXaXa''"]
  have "replace_loop ''a'' ''b'' ''aXaXaXa'' 0 0 =
       (foldl (replace_range ''b'') ''aXaXaXa'' (replace_edits ''a'' ''b'' ''aXaXaXa'' 0),
        length (replace_edits ''a'' ''b'' ''aXaXaXa'' 0))"
    by blast
  then have d: "replace_loop ''a'' ''b'' ''aXaXaXa'' 0 0 =
       (foldl (replace_range ''b'') ''aXaXaXa'' [(0, 1), (2, 3), (4, 5), (6, 7)], 4)"
    unfolding 3 4 .
  from a b 2 c d show ?thesis by (intro conjI)
qed

text \<open>
  Counterexample to C5 as stated: the function does not hand the number of replacements
  to its caller. Replacing \<open>a\<close> by \<open>a\<close> in \<open>ab\<close> performs one replacement, replacing
  \<open>z\<close> by \<open>a\<close> in \<open>ab\<close> performs none, and what the function leaves is the same in both
  runs, the buffer \<open>ab\<close>: the count is not part of it.
\<close>

theorem search_replace_all_count_counterexample:
  "search_replace_all ''a'' ''a'' ''ab'' = ''ab''
   \<and> search_replace_all ''z'' ''a'' ''ab'' = ''ab''
   \<and> length (replace_edits ''a'' ''a'' ''ab'' 0) = 1
   \<and> length (replace_edits ''z'' ''a'' ''ab'' 0) = 0
   \<and> snd (replace_loop ''a'' ''a'' ''ab'' 0 0) = 1
   \<and> snd (replace_loop ''z'' ''a'' ''ab'' 0 0) = 0"
  by code_simp

section \<open>Save-time normalisation: the properties\<close>

text \<open>
  C6, as the code has it. \<open>ensureTrailingNewline\<close> appends a single line feed exactly
  when the text is empty or does not end with one, and leaves the text unchanged exactly
  when it is non-empty and already ends with a line feed; the empty text becomes a single
  line feed, and the result always ends with a line feed.
\<close>

theorem ensureTrailingNewline_appends_iff:
  "((ensureTrailingNewline t = t @ [NL]) = (t = [] \<or> last t \<noteq> NL))
   \<and> ((ensureTrailingNewline t = t) = (t \<noteq> [] \<and> last t = NL))
   \<and> ensureTrailingNewline [] = [NL]
   \<and> last (ensureTrailingNewline t) = NL"
  by (auto simp: ensureTrailingNewline_def apply_save_fixes_def)

theorem ensureTrailingNewline_appends_iff_witness:
  "ensureTrailingNewline ''a'' = ''a\<newline>'' \<and> ensureTrailingNewline ''a\<newline>'' = ''a\<newline>''"
  using ensureTrailingNewline_appends_iff [of "''a''"]
    ensureTrailingNewline_appends_iff [of "''a\<newline>''"]
  by simp

text \<open>
  Counterexample to C6 as stated: the empty text does not stay unchanged, since the test
  \<^verbatim>\<open>text.empty() || text.back() != '\n'\<close> appends a line feed to it.
\<close>

theorem ensureTrailingNewline_empty_counterexample:
  "ensureTrailingNewline [] = [NL] \<and> ensureTrailingNewline [] \<noteq> []"
  by (simp add: ensureTrailingNewline_def apply_save_fixes_def)

text \<open>
  C7. The trimming block strips the trailing whitespace of every line and keeps the order
  of the lines, and it maps the text of the scenario to \<open>a\<close>, \<open>b\<close>, \<open>c\<close> separated
  by line feeds. It does not keep the line count of a text that ends with a line feed:
  \<^verbatim>\<open>std::getline\<close> reports no empty last line, so the final line feed is not written
  back. For every text the block computes the split, strip and join of the specification
  on the text without its final line feed, and every text that ends with a line feed comes
  out with one line less. The text \<open>a\<close> followed by a line feed becomes \<open>a\<close>, and a
  single line feed becomes the empty text.
\<close>

theorem trimTrailingWhitespace_drops_final_line_feed:
  "trimTrailingWhitespace t = trim_by_lines (without_final_line_feed t)
   \<and> length (split_lines (trimTrailingWhitespace t)) =
       (if t \<noteq> [] \<and> last t = NL then length (split_lines t) - 1 else length (split_lines t))
   \<and> trimTrailingWhitespace (''a \<newline>b'' @ [CHR 0x09] @ ''\<newline>c'') = ''a\<newline>b\<newline>c''
   \<and> trimTrailingWhitespace ''a\<newline>'' = ''a''
   \<and> trimTrailingWhitespace ''\<newline>'' = []"
proof (intro conjI)
  show "trimTrailingWhitespace t = trim_by_lines (without_final_line_feed t)"
    by (rule trimTrailingWhitespace_by_lines)
next
  show "length (split_lines (trimTrailingWhitespace t)) =
       (if t \<noteq> [] \<and> last t = NL then length (split_lines t) - 1 else length (split_lines t))"
    by (rule trimTrailingWhitespace_line_count)
next
  show "trimTrailingWhitespace (''a \<newline>b'' @ [CHR 0x09] @ ''\<newline>c'') = ''a\<newline>b\<newline>c''"
    by code_simp
next
  show "trimTrailingWhitespace ''a\<newline>'' = ''a''" by code_simp
next
  show "trimTrailingWhitespace ''\<newline>'' = []" by code_simp
qed

text \<open>
  C8. \<open>ensureTrailingNewline\<close> is idempotent (\<open>ensureTrailingNewline_idem\<close>), but neither
  the trimming block nor the composition of both blocks is: every application removes one
  more of the empty lines at the end of the text. The composition applied twice equals one
  application exactly when the trimmed text does not end with two line feeds, and the
  trimming block applied twice equals one application exactly when the trimmed text does
  not end with a line feed. With both preferences on, \<open>a\<close> followed
  by three line feeds is saved with two, and saving the result leaves one; the trimming
  block alone turns two line feeds into one and one into none.
\<close>

theorem apply_save_fixes_not_idempotent:
  "((apply_save_fixes True True (apply_save_fixes True True t) = apply_save_fixes True True t) =
      (\<not> ends_with_two_line_feeds (trimTrailingWhitespace t)))
   \<and> ((trimTrailingWhitespace (trimTrailingWhitespace t) = trimTrailingWhitespace t) =
      (trimTrailingWhitespace t = [] \<or> last (trimTrailingWhitespace t) \<noteq> NL))
   \<and> apply_save_fixes True True ''a\<newline>\<newline>\<newline>'' = ''a\<newline>\<newline>''
   \<and> apply_save_fixes True True (apply_save_fixes True True ''a\<newline>\<newline>\<newline>'') = ''a\<newline>''
   \<and> trimTrailingWhitespace ''\<newline>\<newline>'' = ''\<newline>''
   \<and> trimTrailingWhitespace (trimTrailingWhitespace ''\<newline>\<newline>'') = []"
proof (intro conjI)
  show "(apply_save_fixes True True (apply_save_fixes True True t) = apply_save_fixes True True t) =
      (\<not> ends_with_two_line_feeds (trimTrailingWhitespace t))"
    by (rule apply_save_fixes_twice_iff)
next
  show "(trimTrailingWhitespace (trimTrailingWhitespace t) = trimTrailingWhitespace t) =
      (trimTrailingWhitespace t = [] \<or> last (trimTrailingWhitespace t) \<noteq> NL)"
    by (rule trimTrailingWhitespace_twice_iff)
next
  show "apply_save_fixes True True ''a\<newline>\<newline>\<newline>'' = ''a\<newline>\<newline>''" by code_simp
next
  show "apply_save_fixes True True (apply_save_fixes True True ''a\<newline>\<newline>\<newline>'') = ''a\<newline>''"
    by code_simp
next
  show "trimTrailingWhitespace ''\<newline>\<newline>'' = ''\<newline>''" by code_simp
next
  show "trimTrailingWhitespace (trimTrailingWhitespace ''\<newline>\<newline>'') = []" by code_simp
qed

section \<open>The file monitor: the properties\<close>

text \<open>
  C3, as the code has it. From \<open>Watching(path, m0)\<close>, marking an own write and then
  receiving a change notification, of any event type and with any modification time
  \<open>m1\<close> on disk, is ignored without any dialog or file access and consumes the
  suppression; the editor is back in exactly the state it had before the mark, so the
  stored modification time is still \<open>m0\<close> and not \<open>m1\<close>. The callback returns before it
  queries the file. When the mark is the one of \<^verbatim>\<open>save_file\<close>, the stored time after
  the notification is the one \<^verbatim>\<open>save_file\<close> itself read after a successful write
  (\<open>m0\<close> when the write failed), again whatever \<open>m1\<close> is.
\<close>

theorem suppressed_notification_keeps_mtime:
  assumes "Watching path m0 s"
  shows "SuppressedOnce path m0 (mark_own_write s)
    \<and> s_on_file_monitor_changed ev w (mark_own_write s) = (Ignore, s, [])
    \<and> SuppressedOnce path (if write_ok w1 then mtime_saved w1 else m0) (fst (save_file w1 s))
    \<and> fst (s_on_file_monitor_changed ev w (fst (save_file w1 s))) = Ignore
    \<and> Watching path (if write_ok w1 then mtime_saved w1 else m0)
         (fst (snd (s_on_file_monitor_changed ev w (fst (save_file w1 s)))))"
  using assms
  by (auto simp: Watching_def SuppressedOnce_def monitor_defs save_file_def Let_def)

theorem suppressed_notification_keeps_mtime_witness:
  "Watching ''/tmp/notes.txt'' 1 example_editor
   \<and> s_on_file_monitor_changed G_FILE_MONITOR_EVENT_CHANGED example_world
        (mark_own_write example_editor) = (Ignore, example_editor, [])
   \<and> Watching ''/tmp/notes.txt'' 3
        (fst (snd (s_on_file_monitor_changed G_FILE_MONITOR_EVENT_CHANGED example_world
           (fst (save_file example_world example_editor)))))"
proof -
  have w: "Watching ''/tmp/notes.txt'' 1 example_editor"
    by (simp add: example_defs)
  have ok: "write_ok example_world" "mtime_saved example_world = 3"
    by (simp_all add: example_defs)
  from suppressed_notification_keeps_mtime [OF w,
      of G_FILE_MONITOR_EVENT_CHANGED example_world example_world] w ok
  show ?thesis by simp
qed

text \<open>
  Counterexample to C3 as stated: the editor watches the file with stored modification time \<open>1\<close>,
  marks an own write, and the notification arrives while the file has modification time
  \<open>2\<close>. The notification is ignored, and the stored time is still \<open>1\<close>: the editor is
  not in \<open>Watching(path, 2)\<close>.
\<close>

theorem suppressed_notification_mtime_counterexample:
  "Watching ''/tmp/notes.txt'' 1 example_editor
   \<and> mtime_now example_world = 2
   \<and> fst (s_on_file_monitor_changed G_FILE_MONITOR_EVENT_CHANGED example_world
        (mark_own_write example_editor)) = Ignore
   \<and> file_mtime_utc_us (fst (snd (s_on_file_monitor_changed G_FILE_MONITOR_EVENT_CHANGED
        example_world (mark_own_write example_editor)))) = 1
   \<and> \<not> Watching ''/tmp/notes.txt'' 2
        (fst (snd (s_on_file_monitor_changed G_FILE_MONITOR_EVENT_CHANGED example_world
           (mark_own_write example_editor))))"
  by (simp add: example_defs monitor_defs)

text \<open>
  C4. When a watched file is found changed (an event of one of the four handled types,
  a modification time on disk that is not 0 and differs from the stored one), the
  callback reports an external change. With a modified buffer the first thing it does is
  show the reload dialog; when the user declines, nothing but the stored modification
  time changes: the buffer and its modified flag stay; and the file is read, the buffer
  replaced or the modified flag cleared only after the user has accepted the reload.
  With an unmodified buffer no dialog is shown and the file is read at once; when the
  read succeeds the buffer holds the contents of the file.
\<close>

theorem external_change_reload_needs_confirmation:
  assumes "Watching path m0 s"
    and "ev \<in> {G_FILE_MONITOR_EVENT_CHANGED, G_FILE_MONITOR_EVENT_CHANGES_DONE_HINT,
             G_FILE_MONITOR_EVENT_CREATED, G_FILE_MONITOR_EVENT_MOVED_IN}"
    and "mtime_now w \<noteq> 0" and "mtime_now w \<noteq> m0"
    and "s_on_file_monitor_changed ev w s = (r, s', es)"
  shows "r = ExternalChangeDetected
    \<and> (modified s \<longrightarrow>
          es \<noteq> [] \<and> hd es = PromptReload
          \<and> (\<not> reload_answer w \<longrightarrow> es = [PromptReload] \<and> buffer s' = buffer s \<and> modified s')
          \<and> (ReadFile path \<in> set es \<or> buffer s' \<noteq> buffer s \<or> \<not> modified s' \<longrightarrow>
               reload_answer w))
    \<and> (\<not> modified s \<longrightarrow>
          es = [ReadFile path]
          \<and> (\<forall>c. read_file w = Contents c \<longrightarrow> buffer s' = c \<and> \<not> modified s'))"
  using assms
  by (auto simp: Watching_def monitor_defs Let_def split: read_result.splits if_splits)

theorem external_change_reload_needs_confirmation_witness:
  "Watching ''/tmp/notes.txt'' 1 example_editor \<and> modified example_editor
   \<and> \<not> reload_answer example_world
   \<and> fst (s_on_file_monitor_changed G_FILE_MONITOR_EVENT_CHANGED example_world example_editor)
       = ExternalChangeDetected
   \<and> snd (snd (s_on_file_monitor_changed G_FILE_MONITOR_EVENT_CHANGED example_world
        example_editor)) = [PromptReload]
   \<and> buffer (fst (snd (s_on_file_monitor_changed G_FILE_MONITOR_EVENT_CHANGED example_world
        example_editor))) = ''local edits''
   \<and> snd (snd (s_on_file_monitor_changed G_FILE_MONITOR_EVENT_CHANGED example_world
        (example_editor\<lparr>modified := False\<rparr>))) = [ReadFile ''/tmp/notes.txt'']
   \<and> buffer (fst (snd (s_on_file_monitor_changed G_FILE_MONITOR_EVENT_CHANGED example_world
        (example_editor\<lparr>modified := False\<rparr>)))) = ''disk text''"
proof -
  let ?h = "s_on_file_monitor_changed G_FILE_MONITOR_EVENT_CHANGED example_world"
  have w1: "Watching ''/tmp/notes.txt'' 1 example_editor"
    and w2: "Watching ''/tmp/notes.txt'' 1 (example_editor\<lparr>modified := False\<rparr>)"
    by (simp_all add: example_defs)
  have ev: "G_FILE_MONITOR_EVENT_CHANGED \<in> {G_FILE_MONITOR_EVENT_CHANGED, G_FILE_MONITOR_EVENT_CHANGES_DONE_HINT,
             G_FILE_MONITOR_EVENT_CREATED, G_FILE_MONITOR_EVENT_MOVED_IN}"
    by simp
  have m: "mtime_now example_world \<noteq> 0" "mtime_now example_world \<noteq> 1"
    by (simp_all add: example_defs)
  have p: "?h e = (fst (?h e), fst (snd (?h e)), snd (snd (?h e)))" for e
    by simp
  have f: "modified example_editor" "\<not> reload_answer example_world"
    "\<not> modified (example_editor\<lparr>modified := False\<rparr>)"
    "read_file example_world = Contents ''disk text''"
    "buffer example_editor = ''local edits''"
    by (simp_all add: example_defs)
  from external_change_reload_needs_confirmation [OF w1 ev m p]
    external_change_reload_needs_confirmation [OF w2 ev m p] w1 f
  show ?thesis by simp
qed

text \<open>
  C9. While a file is watched and no suppression is pending, a notification that finds
  the modification time 0 (the file cannot be queried) or the stored modification time
  is ignored, whatever the event type: no dialog, no file access, and the editor state,
  with the path, the monitor and the stored time, is exactly what it was. No run of the
  callback changes the current path, and the monitor changes only in a run that reports
  an external change and reloads the file, through the calls of
  \<^verbatim>\<open>install_file_monitor\<close> and \<^verbatim>\<open>remove_file_monitor\<close> in
  \<^verbatim>\<open>open_file_from_path\<close>.
\<close>

theorem unchanged_mtime_ignored:
  "(Watching path m s \<and> (mtime_now w = 0 \<or> mtime_now w = m) \<longrightarrow>
      s_on_file_monitor_changed ev w s = (Ignore, s, []))
   \<and> current_file (fst (snd (s_on_file_monitor_changed ev w s))) = current_file s
   \<and> (file_monitor (fst (snd (s_on_file_monitor_changed ev w s))) \<noteq> file_monitor s \<longrightarrow>
        fst (s_on_file_monitor_changed ev w s) = ExternalChangeDetected \<and>
        ReadFile (current_file s) \<in> set (snd (snd (s_on_file_monitor_changed ev w s))))"
  by (auto simp: Watching_def monitor_defs Let_def split: read_result.splits)

theorem unchanged_mtime_ignored_witness:
  "Watching ''/tmp/notes.txt'' 1 example_editor
   \<and> s_on_file_monitor_changed G_FILE_MONITOR_EVENT_CHANGED (example_world\<lparr>mtime_now := 0\<rparr>)
        example_editor = (Ignore, example_editor, [])
   \<and> s_on_file_monitor_changed G_FILE_MONITOR_EVENT_CHANGED (example_world\<lparr>mtime_now := 1\<rparr>)
        example_editor = (Ignore, example_editor, [])"
proof -
  have w: "Watching ''/tmp/notes.txt'' 1 example_editor"
    by (simp add: example_defs)
  from unchanged_mtime_ignored [of "''/tmp/notes.txt''" 1 example_editor
      "example_world\<lparr>mtime_now := 0\<rparr>" G_FILE_MONITOR_EVENT_CHANGED]
    unchanged_mtime_ignored [of "''/tmp/notes.txt''" 1 example_editor
      "example_world\<lparr>mtime_now := 1\<rparr>" G_FILE_MONITOR_EVENT_CHANGED] w
  show ?thesis by simp
qed

text \<open>
  C10. A pending suppression is consumed by the next monitor event whatever its type:
  the callback tests the flag before it looks at the event, clears the flag, and ignores
  the event without touching anything else, also for a delete or an attribute event. The
  event after that is handled as usual: with one of the four handled types and a
  modification time on disk that is neither 0 nor the stored one it reports an external
  change, and with any other type it is ignored.
\<close>

theorem suppression_consumed_by_any_event:
  assumes "current_file s \<noteq> []" and "suppress_monitor_once s"
  shows "s_on_file_monitor_changed ev w s = (Ignore, s\<lparr>suppress_monitor_once := False\<rparr>, [])
    \<and> (ev2 \<in> {G_FILE_MONITOR_EVENT_CHANGED, G_FILE_MONITOR_EVENT_CHANGES_DONE_HINT,
             G_FILE_MONITOR_EVENT_CREATED, G_FILE_MONITOR_EVENT_MOVED_IN} \<and>
        mtime_now w2 \<noteq> 0 \<and> mtime_now w2 \<noteq> file_mtime_utc_us s \<longrightarrow>
        fst (s_on_file_monitor_changed ev2 w2 (fst (snd (s_on_file_monitor_changed ev w s))))
          = ExternalChangeDetected)
    \<and> (ev2 \<notin> {G_FILE_MONITOR_EVENT_CHANGED, G_FILE_MONITOR_EVENT_CHANGES_DONE_HINT,
             G_FILE_MONITOR_EVENT_CREATED, G_FILE_MONITOR_EVENT_MOVED_IN} \<longrightarrow>
        s_on_file_monitor_changed ev2 w2 (fst (snd (s_on_file_monitor_changed ev w s)))
          = (Ignore, s\<lparr>suppress_monitor_once := False\<rparr>, []))"
  using assms
  by (auto simp: monitor_defs Let_def split: read_result.splits)

theorem suppression_consumed_by_any_event_witness:
  "s_on_file_monitor_changed G_FILE_MONITOR_EVENT_DELETED example_world
     (mark_own_write example_editor) = (Ignore, example_editor, [])
   \<and> fst (s_on_file_monitor_changed G_FILE_MONITOR_EVENT_CHANGED example_world
        (fst (snd (s_on_file_monitor_changed G_FILE_MONITOR_EVENT_DELETED example_world
           (mark_own_write example_editor))))) = ExternalChangeDetected"
proof -
  have a: "current_file (mark_own_write example_editor) \<noteq> []"
    "suppress_monitor_once (mark_own_write example_editor)"
    by (simp_all add: example_defs mark_own_write_def)
  have e: "(mark_own_write example_editor)\<lparr>suppress_monitor_once := False\<rparr> = example_editor"
    by (simp add: example_defs mark_own_write_def)
  have m: "G_FILE_MONITOR_EVENT_CHANGED \<in> {G_FILE_MONITOR_EVENT_CHANGED, G_FILE_MONITOR_EVENT_CHANGES_DONE_HINT,
             G_FILE_MONITOR_EVENT_CREATED, G_FILE_MONITOR_EVENT_MOVED_IN}"
    "mtime_now example_world \<noteq> 0"
    "mtime_now example_world \<noteq> file_mtime_utc_us (mark_own_write example_editor)"
    by (simp_all add: example_defs mark_own_write_def)
  note t = suppression_consumed_by_any_event [OF a, of G_FILE_MONITOR_EVENT_DELETED example_world
      G_FILE_MONITOR_EVENT_CHANGED example_world]
  from t e have c1: "s_on_file_monitor_changed G_FILE_MONITOR_EVENT_DELETED example_world
     (mark_own_write example_editor) = (Ignore, example_editor, [])"
    by simp
  from t m have c2: "fst (s_on_file_monitor_changed G_FILE_MONITOR_EVENT_CHANGED example_world
        (fst (snd (s_on_file_monitor_changed G_FILE_MONITOR_EVENT_DELETED example_world
           (mark_own_write example_editor))))) = ExternalChangeDetected"
    by blast
  show ?thesis by (rule conjI [OF c1 c2])
qed

end
